theory Spec2Isabelle
  imports Main "HOL-Library.Word"
begin

section \<open>Data model of subchannel_stream_client.cc\<close>

text \<open>
  The file implements two cooperating objects: the controller
  \<open>SubchannelStreamClient\<close> and one \<open>CallState\<close> per attempt. The controller's fields
  are read and written only under its mutex \<open>mu_\<close>, and each function of the file
  holds the mutex for a whole transition, so every callback is modelled as one
  transformer of the controller state, applied atomically. The message path works
  outside the mutex on its own CallState only. \<open>GPR_ASSERT\<close> aborts the process: a
  transformer that can reach one returns \<open>crash + state\<close>. The transport, the timer
  and the handler are the environment: what they do is an input of the model.
\<close>

type_synonym uint8_t = "8 word"

type_synonym grpc_slice = "uint8_t list"

text \<open>The status codes of grpc/status.h, in their numeric order.\<close>

datatype grpc_status_code =
    GRPC_STATUS_OK
  | GRPC_STATUS_CANCELLED
  | GRPC_STATUS_UNKNOWN
  | GRPC_STATUS_INVALID_ARGUMENT
  | GRPC_STATUS_DEADLINE_EXCEEDED
  | GRPC_STATUS_NOT_FOUND
  | GRPC_STATUS_ALREADY_EXISTS
  | GRPC_STATUS_PERMISSION_DENIED
  | GRPC_STATUS_RESOURCE_EXHAUSTED
  | GRPC_STATUS_FAILED_PRECONDITION
  | GRPC_STATUS_ABORTED
  | GRPC_STATUS_OUT_OF_RANGE
  | GRPC_STATUS_UNIMPLEMENTED
  | GRPC_STATUS_INTERNAL
  | GRPC_STATUS_UNAVAILABLE
  | GRPC_STATUS_DATA_LOSS
  | GRPC_STATUS_UNAUTHENTICATED

text \<open>
  A \<open>grpc_error_handle\<close> is either \<open>GRPC_ERROR_NONE\<close> or an error object. The only
  thing this file reads from an error object is the status code that
  \<open>grpc_error_get_status\<close> translates it into, so an error object is represented by
  that code.
\<close>

datatype grpc_error_handle = GRPC_ERROR_NONE | GRPC_ERROR grpc_status_code

abbreviation GRPC_ERROR_CANCELLED :: grpc_error_handle where
  "GRPC_ERROR_CANCELLED \<equiv> GRPC_ERROR GRPC_STATUS_CANCELLED"

text \<open>
  Modelled from the spec: \<open>grpc_error_get_status\<close> (error_utils.cc is not among the
  sources) "translates a delivered transport error into a status"; it stores the
  translated code through its status out-parameter. The second argument is the value
  the out-parameter held before the call.
\<close>

fun grpc_error_get_status :: "grpc_error_handle \<Rightarrow> grpc_status_code \<Rightarrow> grpc_status_code" where
  "grpc_error_get_status GRPC_ERROR_NONE status = GRPC_STATUS_OK"
| "grpc_error_get_status (GRPC_ERROR code) status = code"

text \<open>\<open>absl::Status\<close> as returned by the handler's decode: only \<open>ok()\<close> is read.\<close>

datatype absl_Status = OkStatus | ErrorStatus grpc_status_code string

fun ok :: "absl_Status \<Rightarrow> bool" where
  "ok OkStatus = True"
| "ok (ErrorStatus code msg) = False"

text \<open>
  The caller-supplied \<open>CallEventHandler\<close>. Its three notifications without a result
  (\<open>OnCallStartLocked\<close>, \<open>OnRetryTimerStartLocked\<close>, \<open>RecvTrailingMetadataReadyLocked\<close>)
  are recorded in the controller's \<open>handler_calls\<close>; the members with a result are
  fields.
\<close>

record CallEventHandler =
  GetPathLocked :: string
  EncodeSendMessageLocked :: grpc_slice
  RecvMessageReadyLocked :: "grpc_slice \<Rightarrow> absl_Status"

datatype handler_call =
    OnCallStartLocked
  | OnRetryTimerStartLocked
  | RecvMessageReady_call grpc_slice
  | RecvTrailingMetadataReady_call grpc_status_code

text \<open>
  Modelled from the spec: \<open>BackOff\<close> (backoff.cc is not among the sources) computes
  \<open>delay = min(cap, initial * multiplier^attempts)\<close>, increments its counter on each
  \<open>NextAttemptTime\<close> and restores it to zero on \<open>Reset\<close>. The time returned is
  represented by the exponent it was computed from; jitter and the clock are outside
  the model.
\<close>

datatype BackOff = BackOff (attempts: nat)

definition BackOff_Reset :: "BackOff \<Rightarrow> BackOff" where
  "BackOff_Reset b = BackOff 0"

definition BackOff_NextAttemptTime :: "BackOff \<Rightarrow> nat \<times> BackOff" where
  "BackOff_NextAttemptTime b = (attempts b, BackOff (Suc (attempts b)))"

text \<open>
  Modelled from the spec: the transport's inbound message stream (\<open>ByteStream\<close>,
  byte_stream.h is not among the sources) offers "successive chunks of an inbound
  message". \<open>bs_length\<close> is what \<open>length()\<close> returns. Each remaining chunk says whether
  \<open>Next\<close> finds it available at once, the error \<open>Pull\<close> returns for it and the
  slice \<open>Pull\<close> yields.
\<close>

record ByteStream =
  bs_length :: nat
  bs_chunks :: "(bool \<times> grpc_error_handle \<times> grpc_slice) list"

text \<open>
  Modelled from the spec: \<open>grpc_slice_buffer\<close> (slice_buffer.cc is not among the
  sources) is the "incoming message accumulator": the slices added so far, in order.
  Its \<open>count\<close> and \<open>length\<close> members are the number of slices and the number of bytes.
\<close>

type_synonym grpc_slice_buffer = "grpc_slice list"

definition grpc_slice_buffer_init :: grpc_slice_buffer where
  "grpc_slice_buffer_init = []"

definition grpc_slice_buffer_add :: "grpc_slice_buffer \<Rightarrow> grpc_slice \<Rightarrow> grpc_slice_buffer" where
  "grpc_slice_buffer_add sb sl = sb @ [sl]"

definition grpc_slice_buffer_destroy_internal :: "grpc_slice_buffer \<Rightarrow> grpc_slice_buffer" where
  "grpc_slice_buffer_destroy_internal sb = []"

definition buf_count :: "grpc_slice_buffer \<Rightarrow> nat" where
  "buf_count sb = length sb"

definition buf_length :: "grpc_slice_buffer \<Rightarrow> nat" where
  "buf_length sb = sum_list (map length sb)"

text \<open>The batches a CallState hands to the transport, in the order it starts them.\<close>

datatype batch =
    Batch string grpc_slice
  | RecvTrailingMetadataBatch
  | RecvMessageBatch
  | CancelStreamBatch

record CallState =
  seen_response :: bool
  cancelled :: bool
  call_refs :: int
  combiner_cancelled :: bool
  started :: "batch list"
  recv_message :: "ByteStream option"
  recv_message_buffer :: grpc_slice_buffer
  destroyed :: bool

text \<open>
  The controller. \<open>call_state\<close> is the \<open>OrphanablePtr<CallState>\<close>: the address of the
  active CallState in the heap \<open>call_states\<close>, whose addresses below \<open>next_call_state\<close>
  are allocated. \<open>connected_subchannel\<close> gives, for each CallState address, the error
  \<open>SubchannelCall::Create\<close> reports for it. \<open>timer_inits\<close> lists the times passed to
  \<open>grpc_timer_init\<close>, \<open>timer_cancels\<close> counts the calls of \<open>grpc_timer_cancel\<close>.
  \<open>refs\<close> is the reference count of \<open>InternallyRefCounted\<close>, which starts at one;
  the deletion of the controller when it reaches zero is outside the model.
\<close>

record SubchannelStreamClient =
  connected_subchannel :: "nat \<Rightarrow> grpc_error_handle"
  event_handler :: "CallEventHandler option"
  call_state :: "nat option"
  retry_backoff :: BackOff
  retry_timer_callback_pending :: bool
  refs :: int
  call_states :: "nat \<Rightarrow> CallState"
  next_call_state :: nat
  handler_calls :: "handler_call list"
  timer_inits :: "nat list"
  timer_cancels :: nat

datatype crash = AssertionFailure

section \<open>CallState: cancellation\<close>

definition upd_call :: "nat \<Rightarrow> (CallState \<Rightarrow> CallState) \<Rightarrow> SubchannelStreamClient \<Rightarrow> SubchannelStreamClient" where
  "upd_call c f s = s\<lparr>call_states := (call_states s)(c := f (call_states s c))\<rparr>"

definition call_Ref :: "CallState \<Rightarrow> CallState" where
  "call_Ref cs = cs\<lparr>call_refs := call_refs cs + 1\<rparr>"

definition call_Unref :: "CallState \<Rightarrow> CallState" where
  "call_Unref cs = cs\<lparr>call_refs := call_refs cs - 1\<rparr>"

definition StartBatch :: "batch \<Rightarrow> CallState \<Rightarrow> CallState" where
  "StartBatch b cs = cs\<lparr>started := started cs @ [b]\<rparr>"

text \<open>
  \<open>Cancel\<close>: the compare-exchange on \<open>cancelled_\<close> lets only the first caller take a
  ref and start the cancel batch (\<open>StartCancel\<close>, queued on the call combiner).
\<close>

definition CallState_Cancel :: "CallState \<Rightarrow> CallState" where
  "CallState_Cancel cs =
     (if \<not> cancelled cs
      then StartBatch CancelStreamBatch (call_Ref (cs\<lparr>cancelled := True\<rparr>))
      else cs)"

definition CallState_Orphan :: "CallState \<Rightarrow> CallState" where
  "CallState_Orphan cs = CallState_Cancel (cs\<lparr>combiner_cancelled := True\<rparr>)"

definition OnCancelComplete :: "nat \<Rightarrow> SubchannelStreamClient \<Rightarrow> SubchannelStreamClient" where
  "OnCancelComplete c s = upd_call c call_Unref s"

definition OnComplete :: "nat \<Rightarrow> SubchannelStreamClient \<Rightarrow> SubchannelStreamClient" where
  "OnComplete c s = upd_call c call_Unref s"

definition RecvInitialMetadataReady :: "nat \<Rightarrow> SubchannelStreamClient \<Rightarrow> SubchannelStreamClient" where
  "RecvInitialMetadataReady c s = upd_call c call_Unref s"

text \<open>
  \<open>AfterCallStackDestruction\<close> deletes the CallState; its destructor drops the
  \<open>RefCountedPtr\<close> to the controller.
\<close>

definition AfterCallStackDestruction :: "nat \<Rightarrow> SubchannelStreamClient \<Rightarrow> SubchannelStreamClient" where
  "AfterCallStackDestruction c s =
     (upd_call c (\<lambda>cs. cs\<lparr>destroyed := True\<rparr>) s)\<lparr>refs := refs s - 1\<rparr>"

section \<open>The controller\<close>

definition new_CallState :: CallState where
  "new_CallState =
     \<lparr>seen_response = False, cancelled = False, call_refs = 0, combiner_cancelled = False,
      started = [], recv_message = None, recv_message_buffer = [], destroyed = False\<rparr>"

definition notify :: "handler_call \<Rightarrow> SubchannelStreamClient \<Rightarrow> SubchannelStreamClient" where
  "notify e s = s\<lparr>handler_calls := handler_calls s @ [e]\<rparr>"

definition StartRetryTimerLocked :: "SubchannelStreamClient \<Rightarrow> SubchannelStreamClient" where
  "StartRetryTimerLocked s =
     (let s1 = (if event_handler s \<noteq> None then notify OnRetryTimerStartLocked s else s);
          (next_try, b) = BackOff_NextAttemptTime (retry_backoff s1)
      in s1\<lparr>retry_backoff := b,
            refs := refs s1 + 1,
            retry_timer_callback_pending := True,
            timer_inits := timer_inits s1 @ [next_try]\<rparr>)"

text \<open>
  \<open>SubchannelStreamClient::StartCallLocked\<close>, \<open>CallState::StartCallLocked\<close> and
  \<open>CallState::CallEndedLocked\<close> call one another: the controller starts a CallState,
  whose failed creation ends the call, which may start a retry. \<open>call_state_.reset()\<close>
  runs \<open>CallState::Orphan\<close> on the CallState it releases.
\<close>

function
  StartCallLocked :: "SubchannelStreamClient \<Rightarrow> crash + SubchannelStreamClient" and
  CallState_StartCallLocked :: "nat \<Rightarrow> SubchannelStreamClient \<Rightarrow> crash + SubchannelStreamClient" and
  CallEndedLocked :: "nat \<Rightarrow> bool \<Rightarrow> SubchannelStreamClient \<Rightarrow> crash + SubchannelStreamClient"
where
  "StartCallLocked s =
     (if event_handler s = None then Inr s
      else if call_state s \<noteq> None then Inl AssertionFailure
      else
        (let s1 = (if event_handler s \<noteq> None then notify OnCallStartLocked s else s);
             c = next_call_state s1;
             s2 = s1\<lparr>call_states := (call_states s1)(c := new_CallState),
                     next_call_state := Suc c,
                     refs := refs s1 + 1,
                     call_state := Some c\<rparr>
         in CallState_StartCallLocked c s2))"
| "CallState_StartCallLocked c s =
     (let error = connected_subchannel s c;
          s1 = upd_call c (\<lambda>cs. cs\<lparr>call_refs := 1\<rparr>) s
      in if error \<noteq> GRPC_ERROR_NONE \<or> event_handler s1 = None
         then CallEndedLocked c True s1
         else
           (case event_handler s1 of
              None \<Rightarrow> Inr s1
            | Some h \<Rightarrow>
                Inr (upd_call c
                  (\<lambda>cs. StartBatch RecvTrailingMetadataBatch
                     (StartBatch (Batch (GetPathLocked h) (EncodeSendMessageLocked h))
                        (call_Ref (call_Ref (call_Ref cs))))) s1)))"
| "CallEndedLocked c retry s =
     map_sum id (upd_call c call_Unref)
       (if call_state s = Some c then
          (let s1 = (upd_call c CallState_Orphan s)\<lparr>call_state := None\<rparr> in
           if retry then
             (if event_handler s1 = None then Inl AssertionFailure
              else if seen_response (call_states s1 c) then
                StartCallLocked (s1\<lparr>retry_backoff := BackOff_Reset (retry_backoff s1)\<rparr>)
              else Inr (StartRetryTimerLocked s1))
           else Inr s1)
        else Inr s)"
  by pat_completeness auto

termination
proof (relation "measure (\<lambda>x. case x of
          Inl s \<Rightarrow> 2
        | Inr (Inl (c, s)) \<Rightarrow> if seen_response (call_states s c) then 4 else 1
        | Inr (Inr (c, retry, s)) \<Rightarrow> if seen_response (call_states s c) then 3 else 0)",
       goal_cases)
  case 1
  show ?case by simp
next
  case (2 s x xa xb)
  then show ?case by (simp add: new_CallState_def)
next
  case (3 c s x xa)
  then show ?case by (simp add: upd_call_def)
next
  case (4 c retry s x)
  then show ?case
    by (auto simp: upd_call_def CallState_Orphan_def CallState_Cancel_def StartBatch_def
          call_Ref_def split: if_splits)
qed

declare StartCallLocked.simps [simp del]
declare CallState_StartCallLocked.simps [simp del]
declare CallEndedLocked.simps [simp del]

text \<open>\<open>StartCall\<close> takes the mutex and calls \<open>StartCallLocked\<close>.\<close>

definition StartCall :: "SubchannelStreamClient \<Rightarrow> crash + SubchannelStreamClient" where
  "StartCall s = StartCallLocked s"

text \<open>
  The constructor: a fresh controller holding the caller's reference, which starts the
  first attempt at once.
\<close>

definition SubchannelStreamClient_new ::
  "(nat \<Rightarrow> grpc_error_handle) \<Rightarrow> CallEventHandler option \<Rightarrow> crash + SubchannelStreamClient" where
  "SubchannelStreamClient_new conn handler =
     StartCall
       \<lparr>connected_subchannel = conn, event_handler = handler, call_state = None,
        retry_backoff = BackOff 0, retry_timer_callback_pending = False, refs = 1,
        call_states = (\<lambda>c. new_CallState), next_call_state = 0, handler_calls = [],
        timer_inits = [], timer_cancels = 0\<rparr>"

text \<open>
  \<open>Orphan\<close>: under the mutex the handler and the active CallState are reset and a
  pending timer is cancelled; then the caller's reference is dropped.
\<close>

definition Orphan :: "SubchannelStreamClient \<Rightarrow> SubchannelStreamClient" where
  "Orphan s =
     (let s1 = s\<lparr>event_handler := None\<rparr>;
          s2 = (case call_state s1 of
                  None \<Rightarrow> s1
                | Some c \<Rightarrow> (upd_call c CallState_Orphan s1)\<lparr>call_state := None\<rparr>);
          s3 = (if retry_timer_callback_pending s2
                then s2\<lparr>timer_cancels := Suc (timer_cancels s2)\<rparr>
                else s2)
      in s3\<lparr>refs := refs s3 - 1\<rparr>)"

definition OnRetryTimer :: "grpc_error_handle \<Rightarrow> SubchannelStreamClient \<Rightarrow> crash + SubchannelStreamClient" where
  "OnRetryTimer error s =
     map_sum id (\<lambda>s'. s'\<lparr>refs := refs s' - 1\<rparr>)
       (let s1 = s\<lparr>retry_timer_callback_pending := False\<rparr> in
        if event_handler s1 \<noteq> None \<and> error = GRPC_ERROR_NONE \<and> call_state s1 = None
        then StartCallLocked s1
        else Inr s1)"

section \<open>CallState: receiving messages\<close>

text \<open>
  \<open>memcpy\<close> into a buffer at an offset, and the loop of \<open>DoneReadingRecvMessage\<close> that
  copies the slices of the accumulator one after the other.
\<close>

definition memcpy :: "uint8_t list \<Rightarrow> nat \<Rightarrow> uint8_t list \<Rightarrow> uint8_t list" where
  "memcpy dst offset src = take offset dst @ src @ drop (offset + length src) dst"

fun copy_slices :: "grpc_slice list \<Rightarrow> nat \<Rightarrow> uint8_t list \<Rightarrow> uint8_t list" where
  "copy_slices [] offset dst = dst"
| "copy_slices (sl # rest) offset dst =
     copy_slices rest (offset + length sl) (memcpy dst offset sl)"

text \<open>
  \<open>gpr_malloc\<close> returns memory of unspecified contents; \<open>copy_slices_fills\<close> below shows
  that the contents do not matter.
\<close>

definition gpr_malloc :: "nat \<Rightarrow> uint8_t list" where
  "gpr_malloc n = replicate n 0"

text \<open>
  The bytes \<open>recv_message\<close> points to: the lone slice itself when the accumulator holds
  one slice, a fresh buffer filled by the copy loop otherwise.
\<close>

definition concatenate_slices :: "grpc_slice_buffer \<Rightarrow> uint8_t list" where
  "concatenate_slices sb =
     (if buf_count sb = 1 then sb ! 0
      else copy_slices sb 0 (gpr_malloc (buf_length sb)))"

text \<open>\<open>absl::string_view(recv_message, recv_message_buffer_.length)\<close>.\<close>

definition serialized_message :: "grpc_slice_buffer \<Rightarrow> uint8_t list" where
  "serialized_message sb = take (buf_length sb) (concatenate_slices sb)"

definition DoneReadingRecvMessage ::
  "nat \<Rightarrow> grpc_error_handle \<Rightarrow> SubchannelStreamClient \<Rightarrow> SubchannelStreamClient" where
  "DoneReadingRecvMessage c error s =
     (let s1 = upd_call c (\<lambda>cs. cs\<lparr>recv_message := None\<rparr>) s in
      if error \<noteq> GRPC_ERROR_NONE then
        upd_call c
          (\<lambda>cs. call_Unref
             ((CallState_Cancel cs)\<lparr>recv_message_buffer :=
                grpc_slice_buffer_destroy_internal (recv_message_buffer cs)\<rparr>)) s1
      else
        (let msg = serialized_message (recv_message_buffer (call_states s1 c));
             s2 = (case event_handler s1 of
                     None \<Rightarrow> s1
                   | Some h \<Rightarrow>
                       (let s' = notify (RecvMessageReady_call msg) s1 in
                        if \<not> ok (RecvMessageReadyLocked h msg)
                        then upd_call c CallState_Cancel s'
                        else s'))
         in upd_call c
              (\<lambda>cs. StartBatch RecvMessageBatch
                 (cs\<lparr>seen_response := True,
                     recv_message_buffer :=
                       grpc_slice_buffer_destroy_internal (recv_message_buffer cs)\<rparr>)) s2))"

text \<open>
  \<open>Pull\<close> on the stream: the head chunk is consumed; its slice is added to the
  accumulator when its error is \<open>GRPC_ERROR_NONE\<close>.
\<close>

definition PullSliceFromRecvMessage :: "CallState \<Rightarrow> grpc_error_handle \<times> CallState" where
  "PullSliceFromRecvMessage cs =
     (case recv_message cs of
        None \<Rightarrow> (GRPC_ERROR_NONE, cs)
      | Some bs \<Rightarrow>
          (case bs_chunks bs of
             [] \<Rightarrow> (GRPC_ERROR_NONE, cs)
           | (avail, error, sl) # rest \<Rightarrow>
               (error,
                (if error = GRPC_ERROR_NONE
                 then cs\<lparr>recv_message_buffer := grpc_slice_buffer_add (recv_message_buffer cs) sl\<rparr>
                 else cs)\<lparr>recv_message := Some (bs\<lparr>bs_chunks := rest\<rparr>)\<rparr>)))"

text \<open>\<open>recv_message_->Next\<close>: is the next chunk available without waiting?\<close>

definition Next_available :: "CallState \<Rightarrow> bool" where
  "Next_available cs =
     (case recv_message cs of
        None \<Rightarrow> False
      | Some bs \<Rightarrow> (case bs_chunks bs of [] \<Rightarrow> False | (avail, error, sl) # rest \<Rightarrow> avail))"

definition remaining_chunks :: "CallState \<Rightarrow> nat" where
  "remaining_chunks cs =
     (case recv_message cs of None \<Rightarrow> 0 | Some bs \<Rightarrow> length (bs_chunks bs))"

definition stream_length :: "CallState \<Rightarrow> nat" where
  "stream_length cs = (case recv_message cs of None \<Rightarrow> 0 | Some bs \<Rightarrow> bs_length bs)"

function ContinueReadingRecvMessage ::
  "nat \<Rightarrow> SubchannelStreamClient \<Rightarrow> SubchannelStreamClient" where
  "ContinueReadingRecvMessage c s =
     (if Next_available (call_states s c) then
        (let (error, cs) = PullSliceFromRecvMessage (call_states s c);
             s1 = upd_call c (\<lambda>_. cs) s
         in if error \<noteq> GRPC_ERROR_NONE then DoneReadingRecvMessage c error s1
            else if buf_length (recv_message_buffer cs) = stream_length cs
            then DoneReadingRecvMessage c GRPC_ERROR_NONE s1
            else ContinueReadingRecvMessage c s1)
      else s)"
  by pat_completeness auto

termination
proof (relation "measure (\<lambda>(c, s). remaining_chunks (call_states s c))", goal_cases)
  case 1
  show ?case by simp
next
  case (2 c s x xa y xb)
  then show ?case
    by (auto simp: Next_available_def PullSliceFromRecvMessage_def remaining_chunks_def
          upd_call_def split: option.splits list.splits if_splits)
qed

declare ContinueReadingRecvMessage.simps [simp del]

definition OnByteStreamNext ::
  "nat \<Rightarrow> grpc_error_handle \<Rightarrow> SubchannelStreamClient \<Rightarrow> SubchannelStreamClient" where
  "OnByteStreamNext c error s =
     (if error \<noteq> GRPC_ERROR_NONE then DoneReadingRecvMessage c error s
      else
        (let (error, cs) = PullSliceFromRecvMessage (call_states s c);
             s1 = upd_call c (\<lambda>_. cs) s
         in if error \<noteq> GRPC_ERROR_NONE then DoneReadingRecvMessage c error s1
            else if buf_length (recv_message_buffer cs) = stream_length cs
            then DoneReadingRecvMessage c GRPC_ERROR_NONE s1
            else ContinueReadingRecvMessage c s1))"

text \<open>
  \<open>RecvMessageReady\<close>: the transport has completed the receive batch and left the
  stream (or null) in \<open>recv_message_\<close>.
\<close>

definition RecvMessageReady ::
  "nat \<Rightarrow> ByteStream option \<Rightarrow> SubchannelStreamClient \<Rightarrow> SubchannelStreamClient" where
  "RecvMessageReady c stream s =
     (let s1 = upd_call c (\<lambda>cs. cs\<lparr>recv_message := stream\<rparr>) s in
      if recv_message (call_states s1 c) = None then upd_call c call_Unref s1
      else ContinueReadingRecvMessage c
             (upd_call c (\<lambda>cs. cs\<lparr>recv_message_buffer := grpc_slice_buffer_init\<rparr>) s1))"

section \<open>CallState: the end of the call\<close>

text \<open>
  The call status of \<open>RecvTrailingMetadataReady\<close>: the \<open>grpc-status\<close> of the trailing
  metadata, \<open>GRPC_STATUS_UNKNOWN\<close> without one, overwritten from the error when the
  callback is given one.
\<close>

definition call_status :: "grpc_status_code option \<Rightarrow> grpc_error_handle \<Rightarrow> grpc_status_code" where
  "call_status recv_trailing_metadata error =
     (let status = (case recv_trailing_metadata of None \<Rightarrow> GRPC_STATUS_UNKNOWN | Some st \<Rightarrow> st)
      in if error \<noteq> GRPC_ERROR_NONE then grpc_error_get_status error status else status)"

definition RecvTrailingMetadataReady ::
  "nat \<Rightarrow> grpc_status_code option \<Rightarrow> grpc_error_handle \<Rightarrow> SubchannelStreamClient
     \<Rightarrow> crash + SubchannelStreamClient" where
  "RecvTrailingMetadataReady c recv_trailing_metadata error s =
     (let status = call_status recv_trailing_metadata error;
          s1 = (if event_handler s \<noteq> None
                then notify (RecvTrailingMetadataReady_call status) s
                else s)
      in CallEndedLocked c (status \<noteq> GRPC_STATUS_UNIMPLEMENTED) s1)"

section \<open>Executions\<close>

text \<open>
  What can happen to a controller after its construction: the owner orphans it, the
  timer runs the retry callback, or the transport runs one of the callbacks of a
  CallState. A callback of a CallState that was never allocated or is already deleted
  does not occur; the byte-stream callback needs a stream being read, and a chunk
  to pull unless it reports an error.
\<close>

datatype event =
    Ev_Orphan
  | Ev_OnRetryTimer grpc_error_handle
  | Ev_OnComplete nat
  | Ev_RecvInitialMetadataReady nat
  | Ev_RecvMessageReady nat "ByteStream option"
  | Ev_OnByteStreamNext nat grpc_error_handle
  | Ev_RecvTrailingMetadataReady nat "grpc_status_code option" grpc_error_handle
  | Ev_OnCancelComplete nat
  | Ev_AfterCallStackDestruction nat

definition live :: "SubchannelStreamClient \<Rightarrow> nat \<Rightarrow> bool" where
  "live s c = (c < next_call_state s \<and> \<not> destroyed (call_states s c))"

fun step :: "SubchannelStreamClient \<Rightarrow> event \<Rightarrow> crash + SubchannelStreamClient" where
  "step s Ev_Orphan = Inr (Orphan s)"
| "step s (Ev_OnRetryTimer error) = OnRetryTimer error s"
| "step s (Ev_OnComplete c) = (if live s c then Inr (OnComplete c s) else Inr s)"
| "step s (Ev_RecvInitialMetadataReady c) =
     (if live s c then Inr (RecvInitialMetadataReady c s) else Inr s)"
| "step s (Ev_RecvMessageReady c stream) =
     (if live s c then Inr (RecvMessageReady c stream s) else Inr s)"
| "step s (Ev_OnByteStreamNext c error) =
     (if live s c \<and> recv_message (call_states s c) \<noteq> None \<and>
         (error \<noteq> GRPC_ERROR_NONE \<or> 0 < remaining_chunks (call_states s c))
      then Inr (OnByteStreamNext c error s) else Inr s)"
| "step s (Ev_RecvTrailingMetadataReady c md error) =
     (if live s c then RecvTrailingMetadataReady c md error s else Inr s)"
| "step s (Ev_OnCancelComplete c) = (if live s c then Inr (OnCancelComplete c s) else Inr s)"
| "step s (Ev_AfterCallStackDestruction c) =
     (if live s c \<and> call_refs (call_states s c) = 0
      then Inr (AfterCallStackDestruction c s) else Inr s)"

fun run :: "SubchannelStreamClient \<Rightarrow> event list \<Rightarrow> crash + SubchannelStreamClient" where
  "run s [] = Inr s"
| "run s (ev # evs) = (case step s ev of Inl e \<Rightarrow> Inl e | Inr s' \<Rightarrow> run s' evs)"

text \<open>The states a controller can reach after its construction.\<close>

definition execution ::
  "(nat \<Rightarrow> grpc_error_handle) \<Rightarrow> CallEventHandler option \<Rightarrow> event list
     \<Rightarrow> crash + SubchannelStreamClient" where
  "execution conn handler evs =
     (case SubchannelStreamClient_new conn handler of
        Inl e \<Rightarrow> Inl e
      | Inr s \<Rightarrow> run s evs)"

section \<open>Invariants and example inputs\<close>

text \<open>
  The invariant of the controller: without a handler there is no active CallState; an
  active CallState excludes a pending retry timer; the active CallState is allocated;
  every other allocated CallState has been cancelled.
\<close>

definition client_inv :: "SubchannelStreamClient \<Rightarrow> bool" where
  "client_inv s =
     ((event_handler s = None \<longrightarrow> call_state s = None) \<and>
      (call_state s \<noteq> None \<longrightarrow> \<not> retry_timer_callback_pending s) \<and>
      (\<forall>c. call_state s = Some c \<longrightarrow> c < next_call_state s) \<and>
      (\<forall>c < next_call_state s. call_state s = Some c \<or> cancelled (call_states s c)))"

text \<open>
  What the message path may change: the CallState \<open>c\<close> (never un-cancelling or deleting
  it) and the list of handler notifications.
\<close>

definition msg_frame :: "nat \<Rightarrow> SubchannelStreamClient \<Rightarrow> SubchannelStreamClient \<Rightarrow> bool" where
  "msg_frame c s s' =
     (event_handler s' = event_handler s \<and> call_state s' = call_state s \<and>
      retry_timer_callback_pending s' = retry_timer_callback_pending s \<and>
      next_call_state s' = next_call_state s \<and> timer_inits s' = timer_inits s \<and>
      refs s' = refs s \<and> retry_backoff s' = retry_backoff s \<and>
      connected_subchannel s' = connected_subchannel s \<and>
      timer_cancels s' = timer_cancels s \<and>
      (\<forall>c'. c' \<noteq> c \<longrightarrow> call_states s' c' = call_states s c') \<and>
      (cancelled (call_states s c) \<longrightarrow> cancelled (call_states s' c)) \<and>
      destroyed (call_states s' c) = destroyed (call_states s c))"

text \<open>Reading a field of the state an execution ends in.\<close>

definition on_result ::
  "(SubchannelStreamClient \<Rightarrow> 'a) \<Rightarrow> crash + SubchannelStreamClient \<Rightarrow> 'a option" where
  "on_result f r = (case r of Inl e \<Rightarrow> None | Inr s \<Rightarrow> Some (f s))"

text \<open>
  Example inputs: a subchannel on which every call is created, one on which none is; a
  handler that accepts every message and one that rejects every message; two
  single-chunk messages.
\<close>

definition subchannel_up :: "nat \<Rightarrow> grpc_error_handle" where
  "subchannel_up c = GRPC_ERROR_NONE"

definition subchannel_down :: "nat \<Rightarrow> grpc_error_handle" where
  "subchannel_down c = GRPC_ERROR GRPC_STATUS_UNAVAILABLE"

definition accepting_handler :: CallEventHandler where
  "accepting_handler =
     \<lparr>GetPathLocked = ''/grpc.health.v1.Health/Watch'', EncodeSendMessageLocked = [],
      RecvMessageReadyLocked = (\<lambda>msg. OkStatus)\<rparr>"


definition message_one :: ByteStream where
  "message_one = \<lparr>bs_length = 2, bs_chunks = [(True, GRPC_ERROR_NONE, [8, 1])]\<rparr>"


section \<open>Basic facts\<close>

lemma StartRetryTimerLocked_fields [simp]:
  "event_handler (StartRetryTimerLocked s) = event_handler s"
  "call_state (StartRetryTimerLocked s) = call_state s"
  "retry_timer_callback_pending (StartRetryTimerLocked s)"
  "next_call_state (StartRetryTimerLocked s) = next_call_state s"
  "timer_inits (StartRetryTimerLocked s) = timer_inits s @ [attempts (retry_backoff s)]"
  "refs (StartRetryTimerLocked s) = refs s + 1"
  "retry_backoff (StartRetryTimerLocked s) = BackOff (Suc (attempts (retry_backoff s)))"
  "call_states (StartRetryTimerLocked s) = call_states s"
  "connected_subchannel (StartRetryTimerLocked s) = connected_subchannel s"
  "timer_cancels (StartRetryTimerLocked s) = timer_cancels s"
  "handler_calls (StartRetryTimerLocked s) =
     handler_calls s @ (if event_handler s \<noteq> None then [OnRetryTimerStartLocked] else [])"
  by (simp_all add: StartRetryTimerLocked_def BackOff_NextAttemptTime_def notify_def)

lemma upd_call_fields [simp]:
  "event_handler (upd_call c f s) = event_handler s"
  "call_state (upd_call c f s) = call_state s"
  "retry_timer_callback_pending (upd_call c f s) = retry_timer_callback_pending s"
  "next_call_state (upd_call c f s) = next_call_state s"
  "timer_inits (upd_call c f s) = timer_inits s"
  "refs (upd_call c f s) = refs s"
  "retry_backoff (upd_call c f s) = retry_backoff s"
  "connected_subchannel (upd_call c f s) = connected_subchannel s"
  "timer_cancels (upd_call c f s) = timer_cancels s"
  "handler_calls (upd_call c f s) = handler_calls s"
  "call_states (upd_call c f s) = (call_states s)(c := f (call_states s c))"
  by (simp_all add: upd_call_def)

lemma notify_fields [simp]:
  "event_handler (notify e s) = event_handler s"
  "call_state (notify e s) = call_state s"
  "retry_timer_callback_pending (notify e s) = retry_timer_callback_pending s"
  "next_call_state (notify e s) = next_call_state s"
  "timer_inits (notify e s) = timer_inits s"
  "refs (notify e s) = refs s"
  "retry_backoff (notify e s) = retry_backoff s"
  "connected_subchannel (notify e s) = connected_subchannel s"
  "timer_cancels (notify e s) = timer_cancels s"
  "handler_calls (notify e s) = handler_calls s @ [e]"
  "call_states (notify e s) = call_states s"
  by (simp_all add: notify_def)

lemma seen_response_CallState_Orphan [simp]:
  "seen_response (CallState_Orphan cs) = seen_response cs"
  by (simp add: CallState_Orphan_def CallState_Cancel_def StartBatch_def call_Ref_def)

lemma seen_response_call_Unref [simp]: "seen_response (call_Unref cs) = seen_response cs"
  by (simp add: call_Unref_def)

lemma CallEndedLocked_unseen:
  "\<not> seen_response (call_states s c) \<Longrightarrow>
   CallEndedLocked c retry s =
     (if call_state s = Some c then
        (if retry then
           (if event_handler s = None then Inl AssertionFailure
            else Inr (upd_call c call_Unref
                   (StartRetryTimerLocked ((upd_call c CallState_Orphan s)\<lparr>call_state := None\<rparr>))))
         else Inr (upd_call c call_Unref ((upd_call c CallState_Orphan s)\<lparr>call_state := None\<rparr>)))
      else Inr (upd_call c call_Unref s))"
  by (subst CallEndedLocked.simps) (simp add: Let_def)


lemma StartCallLocked_ok:
  assumes "event_handler s = Some h" "call_state s = None"
    "connected_subchannel s (next_call_state s) = GRPC_ERROR_NONE"
  shows "StartCallLocked s =
    Inr (upd_call (next_call_state s)
           (\<lambda>cs. StartBatch RecvTrailingMetadataBatch
              (StartBatch (Batch (GetPathLocked h) (EncodeSendMessageLocked h))
                 (call_Ref (call_Ref (call_Ref cs)))))
           (upd_call (next_call_state s) (\<lambda>cs. cs\<lparr>call_refs := 1\<rparr>)
              ((notify OnCallStartLocked s)
                 \<lparr>call_states := (call_states s)(next_call_state s := new_CallState),
                  next_call_state := Suc (next_call_state s),
                  refs := refs s + 1,
                  call_state := Some (next_call_state s)\<rparr>)))"
  using assms
  apply (subst StartCallLocked.simps)
  apply (simp add: Let_def)
  apply (subst CallState_StartCallLocked.simps)
  apply (simp add: Let_def)
  done

lemma StartCallLocked_fail:
  assumes "event_handler s = Some h" "call_state s = None"
    "connected_subchannel s (next_call_state s) \<noteq> GRPC_ERROR_NONE"
  shows "StartCallLocked s =
    Inr (upd_call (next_call_state s) call_Unref
          (StartRetryTimerLocked
            ((upd_call (next_call_state s) CallState_Orphan
               (upd_call (next_call_state s) (\<lambda>cs. cs\<lparr>call_refs := 1\<rparr>)
                 ((notify OnCallStartLocked s)
                   \<lparr>call_states := (call_states s)(next_call_state s := new_CallState),
                    next_call_state := Suc (next_call_state s),
                    refs := refs s + 1,
                    call_state := Some (next_call_state s)\<rparr>)))
             \<lparr>call_state := None\<rparr>)))"
  using assms
  apply (subst StartCallLocked.simps)
  apply (simp add: Let_def)
  apply (subst CallState_StartCallLocked.simps)
  apply (simp add: Let_def CallEndedLocked_unseen new_CallState_def)
  done


lemma StartCallLocked_cases:
  assumes "event_handler s \<noteq> None" "call_state s = None"
  obtains
    (ok) s' where "connected_subchannel s (next_call_state s) = GRPC_ERROR_NONE"
      "StartCallLocked s = Inr s'" "event_handler s' = event_handler s"
      "next_call_state s' = Suc (next_call_state s)"
      "connected_subchannel s' = connected_subchannel s"
      "timer_cancels s' = timer_cancels s"
      "call_state s' = Some (next_call_state s)"
      "retry_timer_callback_pending s' = retry_timer_callback_pending s"
      "timer_inits s' = timer_inits s" "retry_backoff s' = retry_backoff s"
      "refs s' = refs s + 1" "handler_calls s' = handler_calls s @ [OnCallStartLocked]"
      "\<And>c. c \<noteq> next_call_state s \<Longrightarrow> call_states s' c = call_states s c"
      "\<not> seen_response (call_states s' (next_call_state s))"
      "\<not> destroyed (call_states s' (next_call_state s))"
  | (fail) s' where "connected_subchannel s (next_call_state s) \<noteq> GRPC_ERROR_NONE"
      "StartCallLocked s = Inr s'" "event_handler s' = event_handler s"
      "next_call_state s' = Suc (next_call_state s)"
      "connected_subchannel s' = connected_subchannel s"
      "timer_cancels s' = timer_cancels s"
      "call_state s' = None"
      "retry_timer_callback_pending s'"
      "timer_inits s' = timer_inits s @ [attempts (retry_backoff s)]"
      "retry_backoff s' = BackOff (Suc (attempts (retry_backoff s)))"
      "refs s' = refs s + 2"
      "handler_calls s' = handler_calls s @ [OnCallStartLocked, OnRetryTimerStartLocked]"
      "\<And>c. c \<noteq> next_call_state s \<Longrightarrow> call_states s' c = call_states s c"
      "\<not> seen_response (call_states s' (next_call_state s))"
      "\<not> destroyed (call_states s' (next_call_state s))"
      "cancelled (call_states s' (next_call_state s))"
proof -
  from assms obtain h where h: "event_handler s = Some h" by auto
  show ?thesis
  proof (cases "connected_subchannel s (next_call_state s) = GRPC_ERROR_NONE")
    case True
    show ?thesis
      by (rule ok [OF True StartCallLocked_ok [OF h assms(2) True]])
         (simp_all add: h new_CallState_def call_Ref_def StartBatch_def)
  next
    case False
    show ?thesis
      by (rule fail [OF False StartCallLocked_fail [OF h assms(2) False]])
         (simp_all add: h new_CallState_def call_Unref_def CallState_Orphan_def
            CallState_Cancel_def call_Ref_def StartBatch_def)
  qed
qed

lemma CallState_Cancel_fields [simp]:
  "seen_response (CallState_Cancel cs) = seen_response cs"
  "cancelled (CallState_Cancel cs)"
  "destroyed (CallState_Cancel cs) = destroyed cs"
  "recv_message (CallState_Cancel cs) = recv_message cs"
  "recv_message_buffer (CallState_Cancel cs) = recv_message_buffer cs"
  by (simp_all add: CallState_Cancel_def StartBatch_def call_Ref_def)

lemma CallState_Orphan_fields [simp]:
  "cancelled (CallState_Orphan cs)"
  "destroyed (CallState_Orphan cs) = destroyed cs"
  by (simp_all add: CallState_Orphan_def)

lemma call_Unref_fields [simp]:
  "cancelled (call_Unref cs) = cancelled cs"
  "destroyed (call_Unref cs) = destroyed cs"
  by (simp_all add: call_Unref_def)

lemma CallEndedLocked_inactive:
  "call_state s \<noteq> Some c \<Longrightarrow> CallEndedLocked c retry s = Inr (upd_call c call_Unref s)"
  by (subst CallEndedLocked.simps) simp

lemma CallEndedLocked_no_retry:
  "call_state s = Some c \<Longrightarrow>
   CallEndedLocked c False s =
     Inr (upd_call c call_Unref ((upd_call c CallState_Orphan s)\<lparr>call_state := None\<rparr>))"
  by (subst CallEndedLocked.simps) (simp add: Let_def)

lemma CallEndedLocked_seen:
  "call_state s = Some c \<Longrightarrow> event_handler s \<noteq> None \<Longrightarrow> seen_response (call_states s c) \<Longrightarrow>
   CallEndedLocked c True s =
     map_sum id (upd_call c call_Unref)
       (StartCallLocked ((upd_call c CallState_Orphan s)
          \<lparr>call_state := None, retry_backoff := BackOff_Reset (retry_backoff s)\<rparr>))"
  by (subst CallEndedLocked.simps) (auto simp: Let_def)


lemma StartCallLocked_inv:
  assumes "event_handler s \<noteq> None" "call_state s = None"
    "\<forall>c < next_call_state s. cancelled (call_states s c)"
    "\<not> retry_timer_callback_pending s"
  shows "\<exists>s'. StartCallLocked s = Inr s' \<and> client_inv s' \<and> event_handler s' = event_handler s"
  using assms(1,2)
proof (cases rule: StartCallLocked_cases)
  case (ok s')
  then show ?thesis using assms by (auto simp: client_inv_def less_Suc_eq)
next
  case (fail s')
  then show ?thesis using assms by (auto simp: client_inv_def less_Suc_eq)
qed

lemma CallEndedLocked_inv:
  assumes "client_inv s" "c < next_call_state s"
  shows "\<exists>s'. CallEndedLocked c retry s = Inr s' \<and> client_inv s' \<and> event_handler s' = event_handler s"
proof (cases "call_state s = Some c")
  case False
  then show ?thesis using assms
    by (auto simp: CallEndedLocked_inactive client_inv_def)
next
  case active: True
  with assms have h: "event_handler s \<noteq> None" and np: "\<not> retry_timer_callback_pending s"
    by (auto simp: client_inv_def)
  show ?thesis
  proof (cases retry)
    case False
    then show ?thesis using assms active
      by (auto simp: CallEndedLocked_no_retry client_inv_def)
  next
    case True
    show ?thesis
    proof (cases "seen_response (call_states s c)")
      case False
      then show ?thesis using assms active h True
        by (auto simp: CallEndedLocked_unseen client_inv_def)
    next
      case seen: True
      let ?s1 = "(upd_call c CallState_Orphan s)
          \<lparr>call_state := None, retry_backoff := BackOff_Reset (retry_backoff s)\<rparr>"
      have "\<exists>s'. StartCallLocked ?s1 = Inr s' \<and> client_inv s' \<and> event_handler s' = event_handler ?s1"
        using assms active h np by (intro StartCallLocked_inv) (auto simp: client_inv_def)
      then obtain s' where s': "StartCallLocked ?s1 = Inr s'" "client_inv s'"
        "event_handler s' = event_handler s" by auto
      have "CallEndedLocked c retry s = Inr (upd_call c call_Unref s')"
        using True by (simp add: CallEndedLocked_seen [OF active h seen] s')
      moreover have "client_inv (upd_call c call_Unref s')"
        using s'(2) by (auto simp: client_inv_def)
      ultimately show ?thesis using s'(3) by simp
    qed
  qed
qed

lemma msg_frame_refl [simp]: "msg_frame c s s"
  by (simp add: msg_frame_def)

lemma msg_frame_trans: "msg_frame c s s' \<Longrightarrow> msg_frame c s' s'' \<Longrightarrow> msg_frame c s s''"
  by (simp add: msg_frame_def)

lemma msg_frame_inv:
  assumes "msg_frame c s s'" "client_inv s"
  shows "client_inv s'"
proof -
  have mono: "cancelled (call_states s x) \<Longrightarrow> cancelled (call_states s' x)" for x
    using assms(1) by (cases "x = c") (auto simp: msg_frame_def)
  have eqs: "event_handler s' = event_handler s" "call_state s' = call_state s"
    "retry_timer_callback_pending s' = retry_timer_callback_pending s"
    "next_call_state s' = next_call_state s"
    using assms(1) by (simp_all add: msg_frame_def)
  show ?thesis
    using assms(2) mono unfolding client_inv_def eqs by blast
qed

lemma DoneReadingRecvMessage_frame: "msg_frame c s (DoneReadingRecvMessage c error s)"
  by (auto simp: msg_frame_def DoneReadingRecvMessage_def Let_def StartBatch_def
        split: option.splits)

lemma PullSlice_fields:
  "cancelled (snd (PullSliceFromRecvMessage cs)) = cancelled cs"
  "destroyed (snd (PullSliceFromRecvMessage cs)) = destroyed cs"
  by (auto simp: PullSliceFromRecvMessage_def split: option.splits list.splits)

lemma pull_frame: "msg_frame c s (upd_call c (\<lambda>_. snd (PullSliceFromRecvMessage (call_states s c))) s)"
  by (simp add: msg_frame_def PullSlice_fields)

lemma ContinueReadingRecvMessage_frame: "msg_frame c s (ContinueReadingRecvMessage c s)"
proof (induction c s rule: ContinueReadingRecvMessage.induct)
  case (1 c s)
  show ?case
  proof (cases "Next_available (call_states s c)")
    case False
    then show ?thesis by (subst ContinueReadingRecvMessage.simps) simp
  next
    case True
    obtain error cs where p: "PullSliceFromRecvMessage (call_states s c) = (error, cs)"
      by (cases "PullSliceFromRecvMessage (call_states s c)")
    let ?s1 = "upd_call c (\<lambda>_. cs) s"
    have f1: "msg_frame c s ?s1" using pull_frame [of c s] by (simp add: p)
    show ?thesis
      apply (subst ContinueReadingRecvMessage.simps)
      apply (simp add: True p Let_def)
      using f1 "1.IH" [OF True p [symmetric] refl]
        DoneReadingRecvMessage_frame [where c = c and s = ?s1]
      by (auto intro: msg_frame_trans)
  qed
qed

lemma OnByteStreamNext_frame: "msg_frame c s (OnByteStreamNext c error s)"
proof -
  obtain e cs where p: "PullSliceFromRecvMessage (call_states s c) = (e, cs)"
    by (cases "PullSliceFromRecvMessage (call_states s c)")
  have f1: "msg_frame c s (upd_call c (\<lambda>_. cs) s)" using pull_frame [of c s] by (simp add: p)
  show ?thesis
    unfolding OnByteStreamNext_def
    using f1 DoneReadingRecvMessage_frame [where c = c and s = "upd_call c (\<lambda>_. cs) s"]
      ContinueReadingRecvMessage_frame [of c "upd_call c (\<lambda>_. cs) s"]
      DoneReadingRecvMessage_frame [where c = c and s = s and error = error]
    by (auto simp: p Let_def intro: msg_frame_trans)
qed

lemma RecvMessageReady_frame: "msg_frame c s (RecvMessageReady c stream s)"
proof -
  have "msg_frame c s (upd_call c (\<lambda>cs. cs\<lparr>recv_message_buffer := grpc_slice_buffer_init\<rparr>)
          (upd_call c (\<lambda>cs. cs\<lparr>recv_message := stream\<rparr>) s))"
    by (simp add: msg_frame_def)
  then show ?thesis
    unfolding RecvMessageReady_def Let_def
    using ContinueReadingRecvMessage_frame msg_frame_trans
    by (auto simp: msg_frame_def)
qed

lemma client_inv_refs_update [simp]: "client_inv (s\<lparr>refs := r\<rparr>) = client_inv s"
  by (simp add: client_inv_def)

lemma client_inv_upd_call_Unref [simp]: "client_inv (upd_call c call_Unref s) = client_inv s"
  by (auto simp: client_inv_def)

lemma Orphan_fields:
  "event_handler (Orphan s) = None"
  "call_state (Orphan s) = None"
  "next_call_state (Orphan s) = next_call_state s"
  "timer_inits (Orphan s) = timer_inits s"
  "retry_timer_callback_pending (Orphan s) = retry_timer_callback_pending s"
  "handler_calls (Orphan s) = handler_calls s"
  "retry_backoff (Orphan s) = retry_backoff s"
  "refs (Orphan s) = refs s - 1"
  "timer_cancels (Orphan s) =
     (if retry_timer_callback_pending s then Suc (timer_cancels s) else timer_cancels s)"
  by (simp_all add: Orphan_def Let_def split: option.splits)

lemma Orphan_inv: "client_inv s \<Longrightarrow> client_inv (Orphan s)"
  by (auto simp: client_inv_def Orphan_def Let_def split: option.splits)

lemma OnRetryTimer_inv:
  assumes "client_inv s"
  shows "\<exists>s'. OnRetryTimer error s = Inr s' \<and> client_inv s' \<and> event_handler s' = event_handler s"
proof (cases "event_handler s \<noteq> None \<and> error = GRPC_ERROR_NONE \<and> call_state s = None")
  case False
  then show ?thesis using assms by (auto simp: OnRetryTimer_def client_inv_def)
next
  case True
  let ?s1 = "s\<lparr>retry_timer_callback_pending := False\<rparr>"
  have "\<exists>s'. StartCallLocked ?s1 = Inr s' \<and> client_inv s' \<and> event_handler s' = event_handler ?s1"
    using assms True by (intro StartCallLocked_inv) (auto simp: client_inv_def)
  then obtain s' where "StartCallLocked ?s1 = Inr s'" "client_inv s'" "event_handler s' = event_handler s"
    by auto
  then show ?thesis using True by (simp add: OnRetryTimer_def)
qed

lemma RecvTrailingMetadataReady_inv:
  assumes "client_inv s" "c < next_call_state s"
  shows "\<exists>s'. RecvTrailingMetadataReady c md error s = Inr s' \<and> client_inv s' \<and>
           event_handler s' = event_handler s"
proof -
  let ?s1 = "if event_handler s \<noteq> None
             then notify (RecvTrailingMetadataReady_call (call_status md error)) s else s"
  have "client_inv ?s1" "c < next_call_state ?s1" "event_handler ?s1 = event_handler s"
    using assms by (auto simp: client_inv_def)
  from CallEndedLocked_inv [OF this(1,2)] this(3) show ?thesis
    by (simp add: RecvTrailingMetadataReady_def Let_def)
qed

lemma step_inv:
  assumes "client_inv s"
  shows "\<exists>s'. step s ev = Inr s' \<and> client_inv s' \<and> (event_handler s = None \<longrightarrow> event_handler s' = None)"
proof (cases ev)
  case Ev_Orphan
  then show ?thesis using assms by (simp add: Orphan_inv Orphan_fields)
next
  case (Ev_OnRetryTimer error)
  then show ?thesis using OnRetryTimer_inv [OF assms, of error] by auto
next
  case (Ev_OnComplete c)
  then show ?thesis using assms by (simp add: OnComplete_def)
next
  case (Ev_RecvInitialMetadataReady c)
  then show ?thesis using assms by (simp add: RecvInitialMetadataReady_def)
next
  case (Ev_RecvMessageReady c stream)
  then show ?thesis
    using assms msg_frame_inv [OF RecvMessageReady_frame [of c s stream]]
      RecvMessageReady_frame [of c s stream]
    by (auto simp: msg_frame_def)
next
  case (Ev_OnByteStreamNext c error)
  then show ?thesis
    using assms msg_frame_inv [OF OnByteStreamNext_frame [of c s error]]
      OnByteStreamNext_frame [of c s error]
    by (auto simp: msg_frame_def)
next
  case (Ev_RecvTrailingMetadataReady c md error)
  then show ?thesis
    using assms RecvTrailingMetadataReady_inv [OF assms, of c md error]
    by (auto simp: live_def)
next
  case (Ev_OnCancelComplete c)
  then show ?thesis using assms by (simp add: OnCancelComplete_def)
next
  case (Ev_AfterCallStackDestruction c)
  then show ?thesis using assms
    by (auto simp: AfterCallStackDestruction_def client_inv_def)
qed

lemma run_inv:
  "client_inv s \<Longrightarrow> \<exists>s'. run s evs = Inr s' \<and> client_inv s' \<and> (event_handler s = None \<longrightarrow> event_handler s' = None)"
proof (induction evs arbitrary: s)
  case Nil
  then show ?case by simp
next
  case (Cons ev evs)
  from step_inv [OF Cons.prems, of ev] obtain s1 where
    s1: "step s ev = Inr s1" "client_inv s1" "event_handler s = None \<longrightarrow> event_handler s1 = None"
    by auto
  from Cons.IH [OF s1(2)] s1 show ?case by auto
qed

lemma new_inv:
  "\<exists>s. SubchannelStreamClient_new conn handler = Inr s \<and> client_inv s"
proof (cases handler)
  case None
  then show ?thesis
    by (simp add: SubchannelStreamClient_new_def StartCall_def StartCallLocked.simps client_inv_def)
next
  case (Some h)
  let ?s0 = "\<lparr>connected_subchannel = conn, event_handler = handler, call_state = None,
        retry_backoff = BackOff 0, retry_timer_callback_pending = False, refs = 1,
        call_states = (\<lambda>c. new_CallState), next_call_state = 0, handler_calls = [],
        timer_inits = [], timer_cancels = 0\<rparr>"
  have "\<exists>s'. StartCallLocked ?s0 = Inr s' \<and> client_inv s' \<and> event_handler s' = event_handler ?s0"
    using Some by (intro StartCallLocked_inv) auto
  then show ?thesis by (auto simp: SubchannelStreamClient_new_def StartCall_def)
qed

lemma execution_inv: "\<exists>s. execution conn handler evs = Inr s \<and> client_inv s"
proof -
  from new_inv [of conn handler] obtain s0 where
    "SubchannelStreamClient_new conn handler = Inr s0" "client_inv s0" by auto
  then show ?thesis using run_inv [of s0 evs] by (auto simp: execution_def)
qed

lemma CallEndedLocked_handler_calls:
  assumes "client_inv s"
  shows "\<exists>s' xs. CallEndedLocked c retry s = Inr s' \<and> handler_calls s' = handler_calls s @ xs"
proof (cases "call_state s = Some c")
  case False
  then show ?thesis by (simp add: CallEndedLocked_inactive)
next
  case active: True
  with assms have h: "event_handler s \<noteq> None" by (auto simp: client_inv_def)
  show ?thesis
  proof (cases retry)
    case False
    then show ?thesis using active by (simp add: CallEndedLocked_no_retry)
  next
    case True
    show ?thesis
    proof (cases "seen_response (call_states s c)")
      case False
      then show ?thesis using active h True by (auto simp: CallEndedLocked_unseen)
    next
      case seen: True
      let ?s1 = "(upd_call c CallState_Orphan s)
          \<lparr>call_state := None, retry_backoff := BackOff_Reset (retry_backoff s)\<rparr>"
      have "event_handler ?s1 \<noteq> None" "call_state ?s1 = None" using h by simp_all
      then show ?thesis
      proof (cases rule: StartCallLocked_cases)
        case (ok s')
        then show ?thesis using True by (simp add: CallEndedLocked_seen [OF active h seen])
      next
        case (fail s')
        then show ?thesis using True by (simp add: CallEndedLocked_seen [OF active h seen])
      qed
    qed
  qed
qed

lemma copy_slices_fills:
  "offset + length (concat ss) \<le> length dst \<Longrightarrow>
   copy_slices ss offset dst =
     take offset dst @ concat ss @ drop (offset + length (concat ss)) dst"
proof (induction ss arbitrary: offset dst)
  case Nil
  then show ?case by simp
next
  case (Cons sl rest)
  let ?dst = "memcpy dst offset sl"
  from Cons.prems have len: "length ?dst = length dst" and
    le: "offset + length sl + length (concat rest) \<le> length ?dst"
    by (simp_all add: memcpy_def)
  have t: "take (offset + length sl) ?dst = take offset dst @ sl"
    using Cons.prems by (simp add: memcpy_def)
  have d: "drop (offset + length sl + length (concat rest)) ?dst =
           drop (offset + length sl + length (concat rest)) dst"
    using Cons.prems by (simp add: memcpy_def add_ac)
  show ?case
    using Cons.IH [OF le] t d by (simp add: add.assoc)
qed

lemma length_concat_buf_length: "length (concat sb) = buf_length sb"
  by (simp add: buf_length_def length_concat)

lemma concatenate_slices_concat: "concatenate_slices sb = concat sb"
proof (cases "buf_count sb = 1")
  case True
  then obtain sl where "sb = [sl]"
    by (cases sb) (auto simp: buf_count_def)
  then show ?thesis by (simp add: concatenate_slices_def buf_count_def)
next
  case False
  have "copy_slices sb 0 (gpr_malloc (buf_length sb)) = concat sb"
    using copy_slices_fills [of 0 sb "gpr_malloc (buf_length sb)"]
    by (simp add: gpr_malloc_def length_concat_buf_length)
  with False show ?thesis by (simp add: concatenate_slices_def)
qed

lemma serialized_message_concat: "serialized_message sb = concat sb"
  by (simp add: serialized_message_def concatenate_slices_concat
        length_concat_buf_length [symmetric])


lemma buf_length_append [simp]: "buf_length (sb @ [sl]) = buf_length sb + length sl"
  by (simp add: buf_length_def)

text \<open>
  The read loop end to end: when every chunk of a message is at hand, non-empty and
  pulled without error, and the chunks add up to the declared length, the loop
  delivers their concatenation, after whatever the accumulator held.
\<close>

lemma ContinueReadingRecvMessage_delivers:
  assumes "recv_message (call_states s c) =
             Some \<lparr>bs_length = n, bs_chunks = map (\<lambda>sl. (True, GRPC_ERROR_NONE, sl)) chunks\<rparr>"
    and "list_all (\<lambda>sl. sl \<noteq> []) chunks" and "chunks \<noteq> []"
    and "buf_length (recv_message_buffer (call_states s c)) + length (concat chunks) = n"
    and "event_handler s \<noteq> None"
  shows "handler_calls (ContinueReadingRecvMessage c s) =
           handler_calls s @
             [RecvMessageReady_call (concat (recv_message_buffer (call_states s c) @ chunks))]"
  using assms
proof (induction chunks arbitrary: s)
  case Nil
  then show ?case by simp
next
  case (Cons sl rest)
  let ?cs = "call_states s c"
  let ?cs1 = "?cs\<lparr>recv_message_buffer := recv_message_buffer ?cs @ [sl],
                   recv_message := Some \<lparr>bs_length = n,
                     bs_chunks = map (\<lambda>sl. (True, GRPC_ERROR_NONE, sl)) rest\<rparr>\<rparr>"
  let ?s1 = "upd_call c (\<lambda>_. ?cs1) s"
  have avail: "Next_available ?cs" using Cons.prems(1) by (simp add: Next_available_def)
  have pull: "PullSliceFromRecvMessage ?cs = (GRPC_ERROR_NONE, ?cs1)"
    using Cons.prems(1) by (simp add: PullSliceFromRecvMessage_def grpc_slice_buffer_add_def)
  have unfold: "ContinueReadingRecvMessage c s =
      (if buf_length (recv_message_buffer ?cs1) = stream_length ?cs1
       then DoneReadingRecvMessage c GRPC_ERROR_NONE ?s1
       else ContinueReadingRecvMessage c ?s1)"
    by (subst ContinueReadingRecvMessage.simps) (simp add: avail pull Let_def)
  have sl: "stream_length ?cs1 = n" by (simp add: stream_length_def)
  show ?case
  proof (cases "rest = []")
    case True
    with Cons.prems(4) have "buf_length (recv_message_buffer ?cs1) = stream_length ?cs1"
      unfolding sl by simp
    then have "ContinueReadingRecvMessage c s = DoneReadingRecvMessage c GRPC_ERROR_NONE ?s1"
      using unfold by simp
    then show ?thesis
      using True Cons.prems(5)
      by (auto simp: DoneReadingRecvMessage_def Let_def serialized_message_concat)
  next
    case False
    define m where "m = length (concat rest)"
    from False Cons.prems(2) have "0 < m"
      unfolding m_def by (cases rest) auto
    moreover from Cons.prems(4) have
      "buf_length (recv_message_buffer (call_states s c)) + length sl + m = n"
      unfolding m_def by simp
    ultimately have "buf_length (recv_message_buffer ?cs1) \<noteq> stream_length ?cs1"
      unfolding sl by simp
    then have eq: "ContinueReadingRecvMessage c s = ContinueReadingRecvMessage c ?s1"
      using unfold by simp
    have "handler_calls (ContinueReadingRecvMessage c ?s1) =
           handler_calls ?s1 @
             [RecvMessageReady_call (concat (recv_message_buffer (call_states ?s1 c) @ rest))]"
      using Cons.prems False by (intro Cons.IH) (simp_all add: add.assoc)
    then show ?thesis unfolding eq by simp
  qed
qed

lemma RecvMessageReady_delivers:
  assumes "list_all (\<lambda>sl. sl \<noteq> []) chunks" "chunks \<noteq> []" "event_handler s \<noteq> None"
  shows "handler_calls
           (RecvMessageReady c
              (Some \<lparr>bs_length = length (concat chunks),
                      bs_chunks = map (\<lambda>sl. (True, GRPC_ERROR_NONE, sl)) chunks\<rparr>) s) =
         handler_calls s @ [RecvMessageReady_call (concat chunks)]"
  using assms
    ContinueReadingRecvMessage_delivers [of
      "upd_call c (\<lambda>cs. cs\<lparr>recv_message_buffer := grpc_slice_buffer_init\<rparr>)
        (upd_call c (\<lambda>cs. cs\<lparr>recv_message := Some \<lparr>bs_length = length (concat chunks),
                      bs_chunks = map (\<lambda>sl. (True, GRPC_ERROR_NONE, sl)) chunks\<rparr>\<rparr>) s)"
      c "length (concat chunks)" chunks]
  by (simp add: RecvMessageReady_def Let_def grpc_slice_buffer_init_def buf_length_def)

text \<open>
  Once the handler is released and no CallState is recorded, no step creates a
  CallState or arms the timer.
\<close>

lemma orphaned_step:
  assumes "event_handler s = None" "call_state s = None"
  shows "\<exists>s'. step s ev = Inr s' \<and> event_handler s' = None \<and> call_state s' = None \<and>
           next_call_state s' = next_call_state s \<and> timer_inits s' = timer_inits s"
proof (cases ev)
  case Ev_Orphan
  then show ?thesis by (simp add: Orphan_fields)
next
  case (Ev_OnRetryTimer error)
  then show ?thesis using assms by (simp add: OnRetryTimer_def)
next
  case (Ev_OnComplete c)
  then show ?thesis using assms by (simp add: OnComplete_def)
next
  case (Ev_RecvInitialMetadataReady c)
  then show ?thesis using assms by (simp add: RecvInitialMetadataReady_def)
next
  case (Ev_RecvMessageReady c stream)
  then show ?thesis using assms RecvMessageReady_frame [of c s stream]
    by (auto simp: msg_frame_def)
next
  case (Ev_OnByteStreamNext c error)
  then show ?thesis using assms OnByteStreamNext_frame [of c s error]
    by (auto simp: msg_frame_def)
next
  case (Ev_RecvTrailingMetadataReady c md error)
  then show ?thesis using assms
    by (simp add: RecvTrailingMetadataReady_def CallEndedLocked_inactive)
next
  case (Ev_OnCancelComplete c)
  then show ?thesis using assms by (simp add: OnCancelComplete_def)
next
  case (Ev_AfterCallStackDestruction c)
  then show ?thesis using assms by (simp add: AfterCallStackDestruction_def)
qed

lemma orphaned_run:
  assumes "event_handler s = None" "call_state s = None"
  shows "\<exists>s'. run s evs = Inr s' \<and> event_handler s' = None \<and> call_state s' = None \<and>
           next_call_state s' = next_call_state s \<and> timer_inits s' = timer_inits s"
  using assms
proof (induction evs arbitrary: s)
  case Nil
  then show ?case by simp
next
  case (Cons ev evs)
  from orphaned_step [OF Cons.prems, of ev] obtain s1 where
    s1: "step s ev = Inr s1" "event_handler s1 = None" "call_state s1 = None"
      "next_call_state s1 = next_call_state s" "timer_inits s1 = timer_inits s"
    by auto
  from Cons.IH [OF s1(2,3)] s1 show ?case by auto
qed

section \<open>The claims\<close>

text \<open>
  Claim C1. Let a CallState report its end with retry requested, in any reachable
  state. If it is the recorded active CallState, the slot is cleared and: after a
  received message, a new CallState is created at once, on a backoff that was reset
  (the new call is recorded, the backoff is at its start and no timer is armed; or,
  when the subchannel refuses the new call as well, the timer is armed with the first
  delay of the reset backoff); without a received message, no CallState is created and
  the retry timer is armed with the next delay of the backoff. If it is not the
  recorded CallState, nothing of the controller changes: no restart, no timer.
\<close>

theorem CallEndedLocked_retry_decision:
  assumes "execution conn handler evs = Inr s"
  shows "\<exists>s'. CallEndedLocked c True s = Inr s' \<and>
    (if call_state s = Some c then
       (if seen_response (call_states s c) then
          next_call_state s' = Suc (next_call_state s) \<and>
          (if connected_subchannel s (next_call_state s) = GRPC_ERROR_NONE
           then call_state s' = Some (next_call_state s) \<and>
                retry_backoff s' = BackOff 0 \<and>
                \<not> retry_timer_callback_pending s' \<and>
                timer_inits s' = timer_inits s \<and>
                handler_calls s' = handler_calls s @ [OnCallStartLocked]
           else call_state s' = None \<and>
                retry_timer_callback_pending s' \<and>
                timer_inits s' = timer_inits s @ [0] \<and>
                handler_calls s' =
                  handler_calls s @ [OnCallStartLocked, OnRetryTimerStartLocked])
        else call_state s' = None \<and>
             next_call_state s' = next_call_state s \<and>
             retry_timer_callback_pending s' \<and>
             timer_inits s' = timer_inits s @ [attempts (retry_backoff s)] \<and>
             handler_calls s' = handler_calls s @ [OnRetryTimerStartLocked])
     else call_state s' = call_state s \<and>
          next_call_state s' = next_call_state s \<and>
          retry_timer_callback_pending s' = retry_timer_callback_pending s \<and>
          timer_inits s' = timer_inits s \<and>
          retry_backoff s' = retry_backoff s \<and>
          handler_calls s' = handler_calls s)"
proof (cases "call_state s = Some c")
  case False
  then show ?thesis by (simp add: CallEndedLocked_inactive)
next
  case active: True
  from execution_inv [of conn handler evs] assms have "client_inv s" by auto
  with active have h: "event_handler s \<noteq> None" and np: "\<not> retry_timer_callback_pending s"
    by (auto simp: client_inv_def)
  show ?thesis
  proof (cases "seen_response (call_states s c)")
    case False
    then show ?thesis using active h by (auto simp: CallEndedLocked_unseen)
  next
    case seen: True
    let ?s1 = "(upd_call c CallState_Orphan s)
          \<lparr>call_state := None, retry_backoff := BackOff_Reset (retry_backoff s)\<rparr>"
    have "event_handler ?s1 \<noteq> None" "call_state ?s1 = None" using h by simp_all
    then show ?thesis
    proof (cases rule: StartCallLocked_cases)
      case (ok s')
      then show ?thesis using active seen np
        by (simp add: CallEndedLocked_seen [OF active h seen] BackOff_Reset_def)
    next
      case (fail s')
      then show ?thesis using active seen
        by (simp add: CallEndedLocked_seen [OF active h seen] BackOff_Reset_def)
    qed
  qed
qed

text \<open>
  An instance: a call that has delivered one message ends; the state is reached by
  construction and one received message.
\<close>

theorem CallEndedLocked_retry_decision_witness:
  "\<exists>s. execution subchannel_up (Some accepting_handler)
          [Ev_RecvMessageReady 0 (Some message_one)] = Inr s \<and>
        call_state s = Some 0 \<and> seen_response (call_states s 0) \<and>
        (\<exists>s'. CallEndedLocked 0 True s = Inr s' \<and> call_state s' = Some 1 \<and>
              next_call_state s' = 2 \<and> retry_backoff s' = BackOff 0 \<and>
              \<not> retry_timer_callback_pending s' \<and> timer_inits s' = [])"
proof -
  let ?evs = "[Ev_RecvMessageReady 0 (Some message_one)]"
  from execution_inv [of subchannel_up "Some accepting_handler" ?evs] obtain s where
    s: "execution subchannel_up (Some accepting_handler) ?evs = Inr s" by auto
  have "on_result (\<lambda>s. (call_state s, seen_response (call_states s 0), next_call_state s,
            connected_subchannel s 1, timer_inits s))
          (execution subchannel_up (Some accepting_handler) ?evs) =
        Some (Some 0, True, 1, GRPC_ERROR_NONE, [])"
    by code_simp
  with s have f: "call_state s = Some 0" "seen_response (call_states s 0)"
    "next_call_state s = 1" "connected_subchannel s 1 = GRPC_ERROR_NONE" "timer_inits s = []"
    by (simp_all add: on_result_def)
  from CallEndedLocked_retry_decision [OF s, of 0] f s show ?thesis by auto
qed

text \<open>
  Claim C2. The trailing-metadata callback, in any reachable state, ends the call
  with retry requested exactly when the call status is not \<open>UNIMPLEMENTED\<close>. With
  \<open>UNIMPLEMENTED\<close> no CallState is created and no timer armed, whatever
  \<open>seen_response\<close> says. With any other status the recorded CallState is retried: a new
  CallState is created after a received message, the timer is armed otherwise.
\<close>

theorem RecvTrailingMetadataReady_retry:
  assumes "execution conn handler evs = Inr s"
  shows "RecvTrailingMetadataReady c md error s =
      CallEndedLocked c (call_status md error \<noteq> GRPC_STATUS_UNIMPLEMENTED)
        (if event_handler s \<noteq> None
         then notify (RecvTrailingMetadataReady_call (call_status md error)) s else s) \<and>
    (\<exists>s'. RecvTrailingMetadataReady c md error s = Inr s' \<and>
      (if call_status md error = GRPC_STATUS_UNIMPLEMENTED then
         next_call_state s' = next_call_state s \<and> timer_inits s' = timer_inits s \<and>
         retry_timer_callback_pending s' = retry_timer_callback_pending s
       else if call_state s = Some c then
         (if seen_response (call_states s c)
          then next_call_state s' = Suc (next_call_state s)
          else next_call_state s' = next_call_state s \<and>
               timer_inits s' = timer_inits s @ [attempts (retry_backoff s)] \<and>
               retry_timer_callback_pending s')
       else next_call_state s' = next_call_state s \<and> timer_inits s' = timer_inits s \<and>
            retry_timer_callback_pending s' = retry_timer_callback_pending s))"
proof -
  define s1 where "s1 = (if event_handler s \<noteq> None
             then notify (RecvTrailingMetadataReady_call (call_status md error)) s else s)"
  have eq: "RecvTrailingMetadataReady c md error s =
      CallEndedLocked c (call_status md error \<noteq> GRPC_STATUS_UNIMPLEMENTED) s1"
    by (simp add: RecvTrailingMetadataReady_def Let_def s1_def)
  have s1: "call_state s1 = call_state s" "event_handler s1 = event_handler s"
    "next_call_state s1 = next_call_state s" "timer_inits s1 = timer_inits s"
    "retry_timer_callback_pending s1 = retry_timer_callback_pending s"
    "retry_backoff s1 = retry_backoff s" "call_states s1 = call_states s"
    "connected_subchannel s1 = connected_subchannel s"
    by (simp_all add: s1_def)
  from execution_inv [of conn handler evs] assms have inv: "client_inv s" by auto
  have "\<exists>s'. CallEndedLocked c (call_status md error \<noteq> GRPC_STATUS_UNIMPLEMENTED) s1 = Inr s' \<and>
      (if call_status md error = GRPC_STATUS_UNIMPLEMENTED then
         next_call_state s' = next_call_state s \<and> timer_inits s' = timer_inits s \<and>
         retry_timer_callback_pending s' = retry_timer_callback_pending s
       else if call_state s = Some c then
         (if seen_response (call_states s c)
          then next_call_state s' = Suc (next_call_state s)
          else next_call_state s' = next_call_state s \<and>
               timer_inits s' = timer_inits s @ [attempts (retry_backoff s)] \<and>
               retry_timer_callback_pending s')
       else next_call_state s' = next_call_state s \<and> timer_inits s' = timer_inits s \<and>
            retry_timer_callback_pending s' = retry_timer_callback_pending s)"
  proof (cases "call_state s = Some c")
    case False
    then show ?thesis using s1 by (simp add: CallEndedLocked_inactive)
  next
    case active: True
    with inv have h: "event_handler s \<noteq> None" by (auto simp: client_inv_def)
    have a1: "call_state s1 = Some c" and h1: "event_handler s1 \<noteq> None"
      using active h s1 by simp_all
    show ?thesis
    proof (cases "call_status md error = GRPC_STATUS_UNIMPLEMENTED")
      case True
      then show ?thesis using s1 by (simp add: CallEndedLocked_no_retry [OF a1])
    next
      case retry: False
      show ?thesis
      proof (cases "seen_response (call_states s c)")
        case False
        then show ?thesis using retry active a1 h1 s1
          by (auto simp: CallEndedLocked_unseen)
      next
        case seen: True
        then have seen1: "seen_response (call_states s1 c)" using s1 by simp
        let ?s2 = "(upd_call c CallState_Orphan s1)
          \<lparr>call_state := None, retry_backoff := BackOff_Reset (retry_backoff s1)\<rparr>"
        have "event_handler ?s2 \<noteq> None" "call_state ?s2 = None" using h1 by simp_all
        then show ?thesis
        proof (cases rule: StartCallLocked_cases)
          case (ok s')
          then show ?thesis using retry active seen s1
            by (simp add: CallEndedLocked_seen [OF a1 h1 seen1])
        next
          case (fail s')
          then show ?thesis using retry active seen s1
            by (simp add: CallEndedLocked_seen [OF a1 h1 seen1])
        qed
      qed
    qed
  qed
  with eq show ?thesis by (simp add: s1_def)
qed

text \<open>
  Two instances on the state right after construction: \<open>UNIMPLEMENTED\<close> in the
  trailing metadata ends the watch, \<open>UNAVAILABLE\<close> arms the retry timer.
\<close>

theorem RecvTrailingMetadataReady_retry_witness:
  "\<exists>s. execution subchannel_up (Some accepting_handler) [] = Inr s \<and>
        call_state s = Some 0 \<and> \<not> seen_response (call_states s 0) \<and>
        (\<exists>s'. RecvTrailingMetadataReady 0 (Some GRPC_STATUS_UNIMPLEMENTED) GRPC_ERROR_NONE s = Inr s' \<and>
              next_call_state s' = 1 \<and> timer_inits s' = [] \<and>
              \<not> retry_timer_callback_pending s') \<and>
        (\<exists>s'. RecvTrailingMetadataReady 0 (Some GRPC_STATUS_UNAVAILABLE) GRPC_ERROR_NONE s = Inr s' \<and>
              next_call_state s' = 1 \<and> timer_inits s' = [0] \<and>
              retry_timer_callback_pending s')"
proof -
  from execution_inv [of subchannel_up "Some accepting_handler" "[]"] obtain s where
    s: "execution subchannel_up (Some accepting_handler) [] = Inr s" by auto
  have "on_result (\<lambda>s. (call_state s, seen_response (call_states s 0), next_call_state s,
            timer_inits s, retry_timer_callback_pending s, retry_backoff s))
          (execution subchannel_up (Some accepting_handler) []) =
        Some (Some 0, False, 1, [], False, BackOff 0)"
    by code_simp
  with s have f: "call_state s = Some 0" "\<not> seen_response (call_states s 0)"
    "next_call_state s = 1" "timer_inits s = []" "\<not> retry_timer_callback_pending s"
    "retry_backoff s = BackOff 0"
    by (simp_all add: on_result_def)
  have u: "\<exists>s'. RecvTrailingMetadataReady 0 (Some GRPC_STATUS_UNIMPLEMENTED) GRPC_ERROR_NONE s = Inr s' \<and>
              next_call_state s' = 1 \<and> timer_inits s' = [] \<and>
              \<not> retry_timer_callback_pending s'"
    using RecvTrailingMetadataReady_retry
      [OF s, of 0 "Some GRPC_STATUS_UNIMPLEMENTED" GRPC_ERROR_NONE, THEN conjunct2] f
    by (simp add: call_status_def)
  have v: "\<exists>s'. RecvTrailingMetadataReady 0 (Some GRPC_STATUS_UNAVAILABLE) GRPC_ERROR_NONE s = Inr s' \<and>
              next_call_state s' = 1 \<and> timer_inits s' = [0] \<and>
              retry_timer_callback_pending s'"
    using RecvTrailingMetadataReady_retry
      [OF s, of 0 "Some GRPC_STATUS_UNAVAILABLE" GRPC_ERROR_NONE, THEN conjunct2] f
    by (simp add: call_status_def)
  from s f(1,2) u v show ?thesis by blast
qed

text \<open>
  Claim C3, as stated, fails: the status of the trailing metadata is not preferred
  to a delivered error. With \<open>UNIMPLEMENTED\<close> in the trailing metadata and an
  \<open>UNAVAILABLE\<close> error delivered to the callback, the handler is told \<open>UNAVAILABLE\<close>
  (and the call is retried).
\<close>

theorem call_status_counterexample:
  "call_status (Some GRPC_STATUS_UNIMPLEMENTED) (GRPC_ERROR GRPC_STATUS_UNAVAILABLE) =
     GRPC_STATUS_UNAVAILABLE \<and>
   on_result handler_calls
     (execution subchannel_up (Some accepting_handler)
        [Ev_RecvTrailingMetadataReady 0 (Some GRPC_STATUS_UNIMPLEMENTED)
           (GRPC_ERROR GRPC_STATUS_UNAVAILABLE)]) =
     Some [OnCallStartLocked, RecvTrailingMetadataReady_call GRPC_STATUS_UNAVAILABLE,
           OnRetryTimerStartLocked]"
  by code_simp

text \<open>
  Claim C3, amended. The call status is the translation of the delivered error
  whenever the callback is given one, whatever the trailing metadata hold; without an
  error it is the status of the trailing metadata, and \<open>UNKNOWN\<close> when they hold
  none. In every reachable state that status is what the handler, if present, is
  told next.
\<close>

theorem RecvTrailingMetadataReady_status:
  assumes "execution conn handler evs = Inr s"
  shows "call_status md error =
      (case error of
         GRPC_ERROR_NONE \<Rightarrow> (case md of None \<Rightarrow> GRPC_STATUS_UNKNOWN | Some st \<Rightarrow> st)
       | GRPC_ERROR code \<Rightarrow> code) \<and>
    (\<exists>s'. RecvTrailingMetadataReady c md error s = Inr s' \<and>
       take (Suc (length (handler_calls s))) (handler_calls s') =
         handler_calls s @
           (if event_handler s = None then []
            else [RecvTrailingMetadataReady_call (call_status md error)]))"
proof -
  have st: "call_status md error =
      (case error of
         GRPC_ERROR_NONE \<Rightarrow> (case md of None \<Rightarrow> GRPC_STATUS_UNKNOWN | Some st \<Rightarrow> st)
       | GRPC_ERROR code \<Rightarrow> code)"
    by (simp add: call_status_def split: grpc_error_handle.splits)
  define s1 where "s1 = (if event_handler s \<noteq> None
             then notify (RecvTrailingMetadataReady_call (call_status md error)) s else s)"
  have eq: "RecvTrailingMetadataReady c md error s =
      CallEndedLocked c (call_status md error \<noteq> GRPC_STATUS_UNIMPLEMENTED) s1"
    by (simp add: RecvTrailingMetadataReady_def Let_def s1_def)
  from execution_inv [of conn handler evs] assms have "client_inv s" by auto
  then have "client_inv s1" by (auto simp: client_inv_def s1_def)
  from CallEndedLocked_handler_calls [OF this] obtain s' xs where
    s': "CallEndedLocked c (call_status md error \<noteq> GRPC_STATUS_UNIMPLEMENTED) s1 = Inr s'"
      "handler_calls s' = handler_calls s1 @ xs"
    by blast
  have "take (Suc (length (handler_calls s))) (handler_calls s') =
         handler_calls s @
           (if event_handler s = None then []
            else [RecvTrailingMetadataReady_call (call_status md error)])"
  proof (cases "event_handler s = None")
    case True
    with \<open>client_inv s\<close> have "call_state s1 \<noteq> Some c" by (simp add: client_inv_def s1_def)
    with s'(1) have "handler_calls s' = handler_calls s1"
      by (auto simp: CallEndedLocked_inactive)
    with True show ?thesis by (simp add: s1_def)
  next
    case False
    with s'(2) show ?thesis by (auto simp: s1_def)
  qed
  with st eq s'(1) show ?thesis by simp
qed

text \<open>
  An instance on the state right after construction: an error overrides the status
  of the trailing metadata.
\<close>

theorem RecvTrailingMetadataReady_status_witness:
  "\<exists>s. execution subchannel_up (Some accepting_handler) [] = Inr s \<and>
        handler_calls s = [OnCallStartLocked] \<and>
        (\<exists>s'. RecvTrailingMetadataReady 0 (Some GRPC_STATUS_OK) GRPC_ERROR_CANCELLED s = Inr s' \<and>
              take 2 (handler_calls s') =
                [OnCallStartLocked, RecvTrailingMetadataReady_call GRPC_STATUS_CANCELLED])"
proof -
  from execution_inv [of subchannel_up "Some accepting_handler" "[]"] obtain s where
    s: "execution subchannel_up (Some accepting_handler) [] = Inr s" by auto
  have "on_result (\<lambda>s. (handler_calls s, event_handler s = None))
          (execution subchannel_up (Some accepting_handler) []) =
        Some ([OnCallStartLocked], False)"
    by code_simp
  with s have f: "handler_calls s = [OnCallStartLocked]" "event_handler s \<noteq> None"
    by (simp_all add: on_result_def)
  have "\<exists>s'. RecvTrailingMetadataReady 0 (Some GRPC_STATUS_OK) GRPC_ERROR_CANCELLED s = Inr s' \<and>
              take 2 (handler_calls s') =
                [OnCallStartLocked, RecvTrailingMetadataReady_call GRPC_STATUS_CANCELLED]"
    using RecvTrailingMetadataReady_status
      [OF s, of "Some GRPC_STATUS_OK" GRPC_ERROR_CANCELLED 0, THEN conjunct2] f
    by (simp add: call_status_def numeral_2_eq_2)
  with s f(1) show ?thesis by blast
qed






text \<open>
  Claim C6. In every state a controller reaches, whatever the subchannel answers and
  whatever callbacks run in whatever order: no \<open>GPR_ASSERT\<close> has failed (in
  particular \<open>StartCallLocked\<close> never found a CallState still recorded), an active
  CallState and a pending retry timer do not hold together, and every allocated
  CallState other than the recorded one has been cancelled, so at most one attempt is
  active.
\<close>

theorem one_attempt_or_timer:
  "\<exists>s. execution conn handler evs = Inr s \<and>
        \<not> (call_state s \<noteq> None \<and> retry_timer_callback_pending s) \<and>
        list_all (\<lambda>c. call_state s = Some c \<or> cancelled (call_states s c))
          [0..<next_call_state s]"
proof -
  from execution_inv [of conn handler evs] obtain s where
    s: "execution conn handler evs = Inr s" "client_inv s" by auto
  from s(2) have "\<not> (call_state s \<noteq> None \<and> retry_timer_callback_pending s)"
    by (auto simp: client_inv_def)
  moreover from s(2) have
    "list_all (\<lambda>c. call_state s = Some c \<or> cancelled (call_states s c)) [0..<next_call_state s]"
    by (simp add: client_inv_def list_all_iff)
  ultimately show ?thesis using s(1) by blast
qed

text \<open>
  Claim C7. From a reachable state whose handler has been released, whatever happens
  next (the retry timer firing with or without cancellation, any callback of any
  CallState, another \<open>Orphan\<close>), no CallState is created and \<open>grpc_timer_init\<close> is
  not called again; the handler stays released and no CallState becomes active.
\<close>

theorem orphaned_never_restarts:
  assumes "execution conn handler evs = Inr s" "event_handler s = None"
  shows "\<exists>s'. run s evs' = Inr s' \<and> event_handler s' = None \<and> call_state s' = None \<and>
           next_call_state s' = next_call_state s \<and> timer_inits s' = timer_inits s"
proof -
  from execution_inv [of conn handler evs] assms(1) have "client_inv s" by auto
  with assms(2) have "call_state s = None" by (simp add: client_inv_def)
  with assms(2) show ?thesis by (rule orphaned_run)
qed

text \<open>
  An instance: the first call could not be created, so a timer is pending when the
  owner orphans the controller; then the timer fires and the failed CallState reports
  its end.
\<close>

theorem orphaned_never_restarts_witness:
  "\<exists>s. execution subchannel_down (Some accepting_handler) [Ev_Orphan] = Inr s \<and>
        event_handler s = None \<and> retry_timer_callback_pending s \<and>
        (\<exists>s'. run s [Ev_OnRetryTimer GRPC_ERROR_NONE,
                     Ev_RecvTrailingMetadataReady 0 None (GRPC_ERROR GRPC_STATUS_UNAVAILABLE)] = Inr s' \<and>
              event_handler s' = None \<and> call_state s' = None \<and>
              next_call_state s' = next_call_state s \<and> timer_inits s' = timer_inits s)"
proof -
  from execution_inv [of subchannel_down "Some accepting_handler" "[Ev_Orphan]"] obtain s where
    s: "execution subchannel_down (Some accepting_handler) [Ev_Orphan] = Inr s" by auto
  have "on_result (\<lambda>s. (event_handler s = None, retry_timer_callback_pending s))
          (execution subchannel_down (Some accepting_handler) [Ev_Orphan]) = Some (True, True)"
    by code_simp
  with s have h: "event_handler s = None" "retry_timer_callback_pending s"
    by (simp_all add: on_result_def)
  from orphaned_never_restarts [OF s h(1)] s h show ?thesis by blast
qed

text \<open>
  Claim C8, as stated, fails: a second \<open>Orphan\<close> is not without effect. After a
  construction whose call creation failed (timer pending), one \<open>Orphan\<close> leaves two
  references and one timer cancellation; a second one drops a further reference and
  cancels the timer again.
\<close>

theorem Orphan_twice_counterexample:
  "on_result (\<lambda>s. (refs s, timer_cancels s))
     (execution subchannel_down (Some accepting_handler) [Ev_Orphan]) = Some (2, 1) \<and>
   on_result (\<lambda>s. (refs s, timer_cancels s))
     (execution subchannel_down (Some accepting_handler) [Ev_Orphan, Ev_Orphan]) = Some (1, 2)"
  by code_simp

text \<open>
  Claim C8, amended. From any state \<open>Orphan\<close> releases the handler and the active
  CallState, and afterwards no CallState is ever created and no timer armed, whatever
  happens next. A second \<open>Orphan\<close> leaves all of that unchanged, but it drops one more
  reference and, while the timer callback is still pending, cancels the timer once
  more.
\<close>

theorem Orphan_converges:
  "event_handler (Orphan s) = None \<and> call_state (Orphan s) = None \<and>
   (\<exists>s'. run (Orphan s) evs = Inr s' \<and> event_handler s' = None \<and> call_state s' = None \<and>
      next_call_state s' = next_call_state s \<and> timer_inits s' = timer_inits s) \<and>
   Orphan (Orphan s) =
     (Orphan s)\<lparr>refs := refs (Orphan s) - 1,
                timer_cancels := (if retry_timer_callback_pending s
                                  then Suc (timer_cancels (Orphan s))
                                  else timer_cancels (Orphan s))\<rparr>"
proof -
  have a: "event_handler (Orphan s) = None" "call_state (Orphan s) = None"
    by (simp_all add: Orphan_fields)
  from orphaned_run [OF a, of evs] have
    "\<exists>s'. run (Orphan s) evs = Inr s' \<and> event_handler s' = None \<and> call_state s' = None \<and>
      next_call_state s' = next_call_state s \<and> timer_inits s' = timer_inits s"
    by (simp add: Orphan_fields)
  moreover have "Orphan (Orphan s) =
     (Orphan s)\<lparr>refs := refs (Orphan s) - 1,
                timer_cancels := (if retry_timer_callback_pending s
                                  then Suc (timer_cancels (Orphan s))
                                  else timer_cancels (Orphan s))\<rparr>"
    by (simp add: Orphan_def Let_def split: option.splits)
  ultimately show ?thesis using a by blast
qed

text \<open>
  Claim C9. The retry-timer callback, from any state: it never aborts; it starts a
  call exactly when the timer fired without error, the handler is present and no
  CallState is active; the pending flag it cleared is set on return only if a timer
  was armed anew during the callback (the started call could not be created); and the
  controller's reference count goes down by exactly one, apart from the one reference
  taken by each CallState created and by each timer armed in the callback.
\<close>

theorem OnRetryTimer_effect:
  "\<exists>s'. OnRetryTimer error s = Inr s' \<and>
     next_call_state s' =
       (if error = GRPC_ERROR_NONE \<and> event_handler s \<noteq> None \<and> call_state s = None
        then Suc (next_call_state s) else next_call_state s) \<and>
     retry_timer_callback_pending s' = (timer_inits s' \<noteq> timer_inits s) \<and>
     refs s' = refs s - 1 + int (next_call_state s' - next_call_state s)
                 + int (length (timer_inits s') - length (timer_inits s))"
proof (cases "event_handler s \<noteq> None \<and> error = GRPC_ERROR_NONE \<and> call_state s = None")
  case False
  then show ?thesis by (auto simp: OnRetryTimer_def)
next
  case True
  let ?s1 = "s\<lparr>retry_timer_callback_pending := False\<rparr>"
  have "event_handler ?s1 \<noteq> None" "call_state ?s1 = None" using True by simp_all
  then show ?thesis
  proof (cases rule: StartCallLocked_cases)
    case (ok s')
    then show ?thesis using True by (simp add: OnRetryTimer_def)
  next
    case (fail s')
    then show ?thesis using True by (simp add: OnRetryTimer_def)
  qed
qed


end
